theory Spec2Isabelle
  imports Complex_Main "HOL-Library.Stream" "HOL-Library.Multiset"
begin

section \<open>Data model (src/lib/types.ts)\<close>

datatype TableShape = circle | square

datatype SystemType = coloured | text_labels

record Table =
  id_tbl :: int
  shape :: TableShape
  capacity :: int

record BookingSlot =
  tableId :: int
  startTime :: string
  endTime :: string

record Prompt =
  partySize :: int
  time :: string
  displayTime :: string

record ExperimentData =
  systemType :: SystemType
  bookings :: "BookingSlot list"
  tables :: "Table list"
  prompt :: Prompt

section \<open>Strings and numbers of the time utilities\<close>

text \<open>
  A JavaScript number that the time utilities compute is a natural number or NaN;
  \<open>None\<close> stands for NaN.  \<open>Number_str\<close> is \<open>Number\<close> on the fields of the
  "HH:MM" format of types.ts: a short string of decimal digits gives its value, and the
  empty string gives 0.  It reads every other string as NaN, which \<open>Number\<close> does
  not always do (it trims blanks and accepts signs, fractions, exponents and radix
  prefixes, and rounds beyond 15 digits); no property below applies the time utilities
  to such a string: each is about closed digit strings, the slots of
  \<open>AVAILABLE_TIMES\<close>, or the times \<open>wf_time\<close> admits.
\<close>

definition digit_of :: "char \<Rightarrow> nat option" where
  "digit_of c = map_of
     [(CHR ''0'', 0), (CHR ''1'', 1), (CHR ''2'', 2), (CHR ''3'', 3), (CHR ''4'', 4),
      (CHR ''5'', 5), (CHR ''6'', 6), (CHR ''7'', 7), (CHR ''8'', 8), (CHR ''9'', 9)] c"

fun Number_digits :: "nat \<Rightarrow> string \<Rightarrow> nat option" where
  "Number_digits acc [] = Some acc"
| "Number_digits acc (c # cs) =
     (case digit_of c of None \<Rightarrow> None | Some d \<Rightarrow> Number_digits (10 * acc + d) cs)"

definition Number_str :: "string \<Rightarrow> nat option" where
  "Number_str s = Number_digits 0 s"

text \<open>\<open>s.split(c)\<close>: the pieces of \<open>s\<close> between the occurrences of \<open>c\<close>.\<close>

fun split_str :: "char \<Rightarrow> string \<Rightarrow> string list" where
  "split_str c [] = [[]]"
| "split_str c (x # xs) =
     (if x = c then [] # split_str c xs
      else (case split_str c xs of [] \<Rightarrow> [[x]] | w # ws \<Rightarrow> (x # w) # ws))"

text \<open>
  \<open>const [hours, mins] = time.split(':').map(Number)\<close>: an element the array does
  not have is \<open>undefined\<close>, which the arithmetic that follows turns into NaN.
\<close>

definition hours_mins :: "string \<Rightarrow> nat option \<times> nat option" where
  "hours_mins t =
     (case map Number_str (split_str CHR '':'' t) of
        [] \<Rightarrow> (None, None)
      | [h] \<Rightarrow> (h, None)
      | h # m # _ \<Rightarrow> (h, m))"

text \<open>\<open>String(n)\<close> of a natural number: its decimal digits.\<close>

definition digit_char :: "nat \<Rightarrow> char" where
  "digit_char d = ''0123456789'' ! d"

fun String_nat :: "nat \<Rightarrow> string" where
  "String_nat n =
     (if n < 10 then [digit_char n] else String_nat (n div 10) @ [digit_char (n mod 10)])"

declare String_nat.simps [simp del]

definition padStart :: "nat \<Rightarrow> char \<Rightarrow> string \<Rightarrow> string" where
  "padStart n c s = replicate (n - length s) c @ s"

section \<open>Time utilities (src/lib/dataGenerator.ts)\<close>

definition AVAILABLE_TIMES :: "string list" where
  "AVAILABLE_TIMES =
     [''17:00'', ''17:30'', ''18:00'', ''18:30'', ''19:00'', ''19:30'', ''20:00'', ''20:30'',
      ''21:00'']"

definition formatTimeForDisplay :: "string \<Rightarrow> string" where
  "formatTimeForDisplay time24 =
     (case hours_mins time24 of (hours, minutes) \<Rightarrow>
        (let period = (case hours of Some h \<Rightarrow> if h \<ge> 12 then ''PM'' else ''AM'' | None \<Rightarrow> ''AM'');
             displayHour =
               (case hours of
                  Some h \<Rightarrow> String_nat (if h > 12 then h - 12 else if h = 0 then 12 else h)
                | None \<Rightarrow> ''NaN'')
         in if minutes = Some 0 then displayHour @ period
            else displayHour @ '':''
                   @ (case minutes of
                        Some m \<Rightarrow> String_nat m
                      | None \<Rightarrow>
                          if length (split_str CHR '':'' time24) < 2 then ''undefined''
                          else ''NaN'')
                   @ period))"

definition addMinutes :: "string \<Rightarrow> nat \<Rightarrow> string" where
  "addMinutes t minutes =
     (case hours_mins t of
        (Some hours, Some mins) \<Rightarrow>
          (let totalMinutes = hours * 60 + mins + minutes;
               newHours = (totalMinutes div 60) mod 24;
               newMins = totalMinutes mod 60
           in padStart 2 CHR ''0'' (String_nat newHours) @ '':''
                @ padStart 2 CHR ''0'' (String_nat newMins))
      | _ \<Rightarrow> ''NaN:NaN'')"

definition timeToMinutes :: "string \<Rightarrow> nat option" where
  "timeToMinutes t =
     (case hours_mins t of
        (Some hours, Some mins) \<Rightarrow> Some (hours * 60 + mins)
      | _ \<Rightarrow> None)"

text \<open>\<open>a < b\<close> on JavaScript numbers: false as soon as one side is NaN.\<close>

definition num_less :: "nat option \<Rightarrow> nat option \<Rightarrow> bool" where
  "num_less a b = (case (a, b) of (Some x, Some y) \<Rightarrow> x < y | _ \<Rightarrow> False)"

definition timesOverlap :: "string \<Rightarrow> string \<Rightarrow> string \<Rightarrow> string \<Rightarrow> bool" where
  "timesOverlap start1 end1 start2 end2 =
     (let s1 = timeToMinutes start1;
          e1 = timeToMinutes end1;
          s2 = timeToMinutes start2;
          e2 = timeToMinutes end2
      in num_less s1 e2 \<and> num_less s2 e1)"

definition isTableAvailable :: "int \<Rightarrow> string \<Rightarrow> BookingSlot list \<Rightarrow> bool" where
  "isTableAvailable tableId' selectedTime bs =
     (let endTime' = addMinutes selectedTime 90
      in \<not> list_ex (\<lambda>booking. tableId booking = tableId'
                \<and> timesOverlap selectedTime endTime' (startTime booking) (endTime booking)) bs)"

section \<open>The random source\<close>

text \<open>
  \<open>Math.random()\<close> reads the next number of an ambient generator.  The generator is
  made explicit as the stream of numbers it is going to return; each call takes the head
  and leaves the tail.  ECMAScript promises a number in \<open>[0, 1)\<close>: that is
  \<open>valid_rng\<close>.  The numbers are taken as exact reals and their products with the
  small integers of the code as exact products; what the properties below use of
  \<open>Math.floor(Math.random() * n)\<close> is only that it is an integer from 0 to \<open>n - 1\<close>,
  which the rounded product of a double below 1 and an integer up to 12 also satisfies.
\<close>

type_synonym rng = "real stream"

definition valid_rng :: "rng \<Rightarrow> bool" where
  "valid_rng s = (\<forall>r \<in> sset s. 0 \<le> r \<and> r < 1)"

definition Math_random :: "rng \<Rightarrow> real \<times> rng" where
  "Math_random s = (shd s, stl s)"

text \<open>The idiom \<open>Math.floor(Math.random() * n)\<close>, used as a count and as an array index.\<close>

definition floor_random :: "nat \<Rightarrow> rng \<Rightarrow> nat \<times> rng" where
  "floor_random n s = (case Math_random s of (r, s') \<Rightarrow> (nat \<lfloor>r * real n\<rfloor>, s'))"

section \<open>Layout generator\<close>

text \<open>
  The two filling loops of \<open>generateTables\<close> (lines 12--15 and 18--21): \<open>n\<close> is the
  number of iterations left, the state is the array, the id counter and the generator.
\<close>

fun addTables :: "nat \<Rightarrow> int \<Rightarrow> Table list \<times> int \<times> rng \<Rightarrow> Table list \<times> int \<times> rng" where
  "addTables 0 cap st = st"
| "addTables (Suc n) cap (ts, idc, s) =
     (case Math_random s of (r, s') \<Rightarrow>
        addTables n cap
          (ts @ [\<lparr>id_tbl = idc, shape = (if r > 0.5 then circle else square), capacity = cap\<rparr>],
           idc + 1, s'))"

text \<open>Lines 5--21: the counts and the two loops, before the shuffle.\<close>

definition fillTables :: "rng \<Rightarrow> Table list \<times> rng" where
  "fillTables s =
     (case floor_random 5 s of (k, s1) \<Rightarrow>
        (let numFourPerson = 4 + int k;
             numSixPerson = 12 - numFourPerson
         in case addTables (nat numFourPerson) 4 ([], 1, s1) of (ts4, idc, s2) \<Rightarrow>
              (case addTables (nat numSixPerson) 6 (ts4, idc, s2) of (ts, _, s3) \<Rightarrow> (ts, s3))))"

text \<open>
  Lines 24--27: \<open>for (let i = tables.length - 1; i > 0; i--)\<close>, with the swap
  \<open>[tables[i], tables[j]] = [tables[j], tables[i]]\<close>, which reads both elements before
  it writes \<open>tables[i]\<close> and then \<open>tables[j]\<close>.
\<close>

fun shuffle :: "nat \<Rightarrow> Table list \<Rightarrow> rng \<Rightarrow> Table list \<times> rng" where
  "shuffle 0 ts s = (ts, s)"
| "shuffle (Suc i) ts s =
     (case floor_random (Suc i + 1) s of (j, s') \<Rightarrow>
        shuffle i (ts[Suc i := ts ! j, j := ts ! Suc i]) s')"

definition generateTables :: "rng \<Rightarrow> Table list \<times> rng" where
  "generateTables s = (case fillTables s of (ts, s') \<Rightarrow> shuffle (length ts - 1) ts s')"

section \<open>Scenario generator\<close>

text \<open>
  The two array reads of \<open>generateRandomPrompt\<close> and the read of \<open>availableSlots\<close>
  use an index \<open>Math.floor(Math.random() * length)\<close> of a non-empty array, which is
  below the length for every draw in \<open>[0, 1)\<close> (lemma \<open>floor_random_valid\<close>); they
  are written with \<open>!\<close>.  The read of \<open>suitableTables\<close> depends on the data and
  keeps its \<open>undefined\<close> case.
\<close>

definition generateRandomPrompt :: "rng \<Rightarrow> Prompt \<times> rng" where
  "generateRandomPrompt s =
     (let partySizes = [4, 6] in
      case floor_random (length partySizes) s of (i, s1) \<Rightarrow>
        (case floor_random (length AVAILABLE_TIMES) s1 of (j, s2) \<Rightarrow>
           (let t = AVAILABLE_TIMES ! j
            in (\<lparr>partySize = partySizes ! i, time = t, displayTime = formatTimeForDisplay t\<rparr>,
                s2))))"

text \<open>
  Reading \<open>guaranteedAvailableTable.id\<close> when the chosen element of \<open>suitableTables\<close>
  does not exist throws a TypeError.
\<close>

datatype error = TypeError

definition suitableTables :: "Table list \<Rightarrow> Prompt \<Rightarrow> Table list" where
  "suitableTables ts p = filter (\<lambda>table. capacity table = partySize p) ts"

text \<open>Line 95: an index outside the array gives \<open>undefined\<close>, here \<open>None\<close>.\<close>

definition guaranteedAvailableTable :: "Table list \<Rightarrow> rng \<Rightarrow> Table option \<times> rng" where
  "guaranteedAvailableTable suitable s =
     (case floor_random (length suitable) s of (k, s') \<Rightarrow>
        (if k < length suitable then Some (suitable ! k) else None, s'))"

text \<open>
  The inner loop (lines 104--131) for one table: \<open>n\<close> is \<open>numBookings - i\<close>, the
  iterations left; \<open>slots\<close> is \<open>availableSlots\<close>, from which \<open>splice\<close> removes the
  sampled element; \<open>bs\<close> is the \<open>bookings\<close> array.
\<close>

fun bookSlots ::
  "nat \<Rightarrow> Table \<Rightarrow> Table option \<Rightarrow> Prompt \<Rightarrow> string list \<Rightarrow> BookingSlot list \<Rightarrow> rng
     \<Rightarrow> error + (BookingSlot list \<times> rng)" where
  "bookSlots 0 table g p slots bs s = Inr (bs, s)"
| "bookSlots (Suc n) table g p slots bs s =
     (if length slots > 0 then
        (case floor_random (length slots) s of (randomIndex, s') \<Rightarrow>
           (let t = slots ! randomIndex;
                slots' = take randomIndex slots @ drop (Suc randomIndex) slots
            in case g of
                 None \<Rightarrow> Inl TypeError
               | Some gt \<Rightarrow>
                   if id_tbl table = id_tbl gt then
                     (let bookingEnd = addMinutes t 90;
                          promptEnd = addMinutes (time p) 90
                      in if \<not> timesOverlap t bookingEnd (time p) promptEnd then
                           bookSlots n table g p slots'
                             (bs @ [\<lparr>tableId = id_tbl table, startTime = t, endTime = bookingEnd\<rparr>])
                             s'
                         else bookSlots n table g p slots' bs s')
                   else
                     bookSlots n table g p slots'
                       (bs @ [\<lparr>tableId = id_tbl table, startTime = t,
                               endTime = addMinutes t 90\<rparr>])
                       s'))
      else Inr (bs, s))"

text \<open>\<open>tables.forEach\<close> (lines 98--132).\<close>

fun forEach_table ::
  "Table list \<Rightarrow> Table option \<Rightarrow> Prompt \<Rightarrow> BookingSlot list \<Rightarrow> rng
     \<Rightarrow> error + (BookingSlot list \<times> rng)" where
  "forEach_table [] g p bs s = Inr (bs, s)"
| "forEach_table (table # ts) g p bs s =
     (case floor_random 4 s of (numBookings, s1) \<Rightarrow>
        (case bookSlots numBookings table g p AVAILABLE_TIMES bs s1 of
           Inl e \<Rightarrow> Inl e
         | Inr (bs', s2) \<Rightarrow> forEach_table ts g p bs' s2))"

definition generateExperimentData :: "SystemType \<Rightarrow> rng \<Rightarrow> error + (ExperimentData \<times> rng)" where
  "generateExperimentData sys s =
     (case generateTables s of (ts, s1) \<Rightarrow>
        (case generateRandomPrompt s1 of (p, s2) \<Rightarrow>
           (case guaranteedAvailableTable (suitableTables ts p) s2 of (g, s3) \<Rightarrow>
              (case forEach_table ts g p [] s3 of
                 Inl e \<Rightarrow> Inl e
               | Inr (bs, s4) \<Rightarrow>
                   Inr (\<lparr>systemType = sys, bookings = bs, tables = ts, prompt = p\<rparr>, s4)))))"

section \<open>Notions used to state the properties\<close>

text \<open>
  The time strings of the format \<open>"HH:MM"\<close> that types.ts declares: \<open>hhmm h m\<close> is
  the string of hour \<open>h\<close> and minute \<open>m\<close>, two digits each, and \<open>wf_time\<close> holds of
  the 1440 strings from \<open>"00:00"\<close> to \<open>"23:59"\<close>.
\<close>

definition hhmm :: "nat \<Rightarrow> nat \<Rightarrow> string" where
  "hhmm h m = padStart 2 CHR ''0'' (String_nat h) @ '':'' @ padStart 2 CHR ''0'' (String_nat m)"

definition wf_time :: "string \<Rightarrow> bool" where
  "wf_time t = list_ex (\<lambda>h. list_ex (\<lambda>m. t = hhmm h m) [0..<60]) [0..<24]"

text \<open>
  The availability oracle as the specification words it, to compare with
  \<open>isTableAvailable\<close>: the candidate is the interval of minute counts from that of the
  time to that of the time plus 90, and a booking of the table blocks it when
  \<open>s1 < e2\<close> and \<open>s2 < e1\<close>.
\<close>

definition spec_isTableAvailable :: "int \<Rightarrow> string \<Rightarrow> BookingSlot list \<Rightarrow> bool" where
  "spec_isTableAvailable tid t bs =
     (\<not> list_ex (\<lambda>b. tableId b = tid
          \<and> (case (timeToMinutes t, timeToMinutes (startTime b), timeToMinutes (endTime b)) of
                (Some s1, Some s2, Some e2) \<Rightarrow> s1 < e2 \<and> s2 < s1 + 90
              | _ \<Rightarrow> False)) bs)"

text \<open>What the inner loop promises of a booking it pushes for \<open>table\<close>.\<close>

definition booked_ok :: "Table \<Rightarrow> Table \<Rightarrow> Prompt \<Rightarrow> BookingSlot \<Rightarrow> bool" where
  "booked_ok table gt p b \<longleftrightarrow>
     tableId b = id_tbl table \<and> endTime b = addMinutes (startTime b) 90
     \<and> (id_tbl table = id_tbl gt \<longrightarrow>
          \<not> timesOverlap (startTime b) (endTime b) (time p) (addMinutes (time p) 90))"

text \<open>The bookings of a list that reference table id \<open>k\<close>.\<close>

definition own_bookings :: "int \<Rightarrow> BookingSlot list \<Rightarrow> BookingSlot list" where
  "own_bookings k bs = filter (\<lambda>b. tableId b = k) bs"

text \<open>What the scenario generator promises of every booking of a scenario.\<close>

definition booking_ok :: "Table list \<Rightarrow> Table \<Rightarrow> Prompt \<Rightarrow> BookingSlot \<Rightarrow> bool" where
  "booking_ok ts gt p b \<longleftrightarrow>
     tableId b \<in> id_tbl ` set ts \<and> startTime b \<in> set AVAILABLE_TIMES
     \<and> endTime b = addMinutes (startTime b) 90
     \<and> (tableId b = id_tbl gt \<longrightarrow>
          \<not> timesOverlap (startTime b) (endTime b) (time p) (addMinutes (time p) 90))"

text \<open>
  A generator to run the definitions on.  Its first draw makes six tables of capacity 4;
  twelve draws choose the shapes and eleven drive the shuffle; the next three choose a
  party of 4 at 19:00 and the second suitable table, id 5, as the guaranteed one.  Table
  2 is then booked at 19:00 and 17:00; table 5 samples 18:00, 20:30 and 19:00, of which
  only 20:30 does not overlap the prompt; table 3 is booked at 21:00; every later draw is
  0, which books nothing.
\<close>

definition sample_draws :: rng where
  "sample_draws =
     [1 / 2,
      3 / 4, 1 / 3, 9 / 10, 1 / 4, 3 / 5, 0, 1 / 2, 7 / 10, 1 / 5, 4 / 5, 1 / 10, 2 / 3,
      5 / 8, 0, 3 / 4, 1 / 3, 9 / 10, 1 / 2, 1 / 7, 5 / 8, 0, 3 / 4, 1 / 3,
      1 / 10, 1 / 2, 1 / 5,
      3 / 5, 1 / 2, 0,
      4 / 5, 1 / 4, 4 / 5, 1 / 2,
      1 / 3, 9 / 10] @- sconst 0"

definition sample_tables :: "Table list" where
  "sample_tables =
     [\<lparr>id_tbl = 2, shape = square, capacity = 4\<rparr>,
      \<lparr>id_tbl = 5, shape = circle, capacity = 4\<rparr>,
      \<lparr>id_tbl = 3, shape = circle, capacity = 4\<rparr>,
      \<lparr>id_tbl = 6, shape = square, capacity = 4\<rparr>,
      \<lparr>id_tbl = 7, shape = square, capacity = 6\<rparr>,
      \<lparr>id_tbl = 11, shape = square, capacity = 6\<rparr>,
      \<lparr>id_tbl = 9, shape = square, capacity = 6\<rparr>,
      \<lparr>id_tbl = 10, shape = circle, capacity = 6\<rparr>,
      \<lparr>id_tbl = 4, shape = square, capacity = 4\<rparr>,
      \<lparr>id_tbl = 12, shape = circle, capacity = 6\<rparr>,
      \<lparr>id_tbl = 1, shape = circle, capacity = 4\<rparr>,
      \<lparr>id_tbl = 8, shape = circle, capacity = 6\<rparr>]"

definition sample_bookings :: "BookingSlot list" where
  "sample_bookings =
     [\<lparr>tableId = 2, startTime = ''19:00'', endTime = ''20:30''\<rparr>,
      \<lparr>tableId = 2, startTime = ''17:00'', endTime = ''18:30''\<rparr>,
      \<lparr>tableId = 5, startTime = ''20:30'', endTime = ''22:00''\<rparr>,
      \<lparr>tableId = 3, startTime = ''21:00'', endTime = ''22:30''\<rparr>]"

definition sample_scenario :: "SystemType \<Rightarrow> ExperimentData" where
  "sample_scenario sys =
     \<lparr>systemType = sys, bookings = sample_bookings, tables = sample_tables,
      prompt = \<lparr>partySize = 4, time = ''19:00'', displayTime = ''7PM''\<rparr>\<rparr>"

section \<open>Evaluation of the time utilities\<close>

lemmas time_eval =
  addMinutes_def timeToMinutes_def hours_mins_def Number_str_def digit_of_def padStart_def
  String_nat.simps digit_char_def Let_def

lemmas overlap_eval = isTableAvailable_def timesOverlap_def num_less_def

section \<open>Availability oracle\<close>

text \<open>
  C6.  \<open>addMinutes("21:00", 90)\<close> is \<open>"22:30"\<close>, and \<open>addMinutes("23:30", 90)\<close> is
  \<open>"01:00"\<close>: the hour wraps modulo 24 and both fields are padded to two digits.  The
  function is total: it returns a string on every input.
\<close>

theorem addMinutes_examples:
  "addMinutes ''21:00'' 90 = ''22:30'' \<and> addMinutes ''23:30'' 90 = ''01:00''"
  by (simp add: time_eval)

text \<open>
  C4, as the specification states it: with the one booking of table 1 from 17:00 to
  18:30, table 1 is taken at 17:00, free at 18:30, free at 16:00, and table 2 is free
  at 17:00.  The third part fails: the candidate interval of 16:00 ends at 17:30, after
  the booking has started.
\<close>

theorem isTableAvailable_examples_counterexample:
  "\<not> (isTableAvailable 1 ''17:00'' [\<lparr>tableId = 1, startTime = ''17:00'', endTime = ''18:30''\<rparr>] = False
      \<and> isTableAvailable 1 ''18:30'' [\<lparr>tableId = 1, startTime = ''17:00'', endTime = ''18:30''\<rparr>] = True
      \<and> isTableAvailable 1 ''16:00'' [\<lparr>tableId = 1, startTime = ''17:00'', endTime = ''18:30''\<rparr>] = True
      \<and> isTableAvailable 2 ''17:00'' [\<lparr>tableId = 1, startTime = ''17:00'', endTime = ''18:30''\<rparr>] = True)"
  by (simp add: overlap_eval time_eval)

text \<open>
  C4, amended: with the one booking of table 1 from 17:00 to 18:30, table 1 is taken at
  17:00, free at 18:30 (half-open boundary), taken at 16:00 (16:00 to 17:30 overlaps the
  booking), and table 2 is free at 17:00.
\<close>

theorem isTableAvailable_examples:
  "isTableAvailable 1 ''17:00'' [\<lparr>tableId = 1, startTime = ''17:00'', endTime = ''18:30''\<rparr>] = False
   \<and> isTableAvailable 1 ''18:30'' [\<lparr>tableId = 1, startTime = ''17:00'', endTime = ''18:30''\<rparr>] = True
   \<and> isTableAvailable 1 ''16:00'' [\<lparr>tableId = 1, startTime = ''17:00'', endTime = ''18:30''\<rparr>] = False
   \<and> isTableAvailable 2 ''17:00'' [\<lparr>tableId = 1, startTime = ''17:00'', endTime = ''18:30''\<rparr>] = True"
  by (simp add: overlap_eval time_eval)

subsection \<open>The time utilities on well-formed times\<close>

lemma digit_char_digit:
  assumes "d < 10"
  shows "digit_of (digit_char d) = Some d" and "digit_char d \<noteq> CHR '':''"
proof -
  from assms have "d \<in> {0, 1, 2, 3, 4, 5, 6, 7, 8, 9}" by auto
  then show "digit_of (digit_char d) = Some d" and "digit_char d \<noteq> CHR '':''"
    by (auto simp add: digit_of_def digit_char_def)
qed

lemma two_digits:
  assumes "n < 100"
  shows "padStart 2 CHR ''0'' (String_nat n) = [digit_char (n div 10), digit_char (n mod 10)]"
proof (cases "n < 10")
  case True
  then show ?thesis
    by (simp add: String_nat.simps [of n] padStart_def digit_char_def)
next
  case False
  with assms have "n div 10 < 10" by simp
  then have "String_nat (n div 10) = [digit_char (n div 10)]"
    by (simp add: String_nat.simps [of "n div 10"])
  with False show ?thesis
    by (simp add: String_nat.simps [of n] padStart_def)
qed

lemma hhmm_chars:
  assumes "h < 100" "m < 100"
  shows "hhmm h m =
    [digit_char (h div 10), digit_char (h mod 10), CHR '':'',
     digit_char (m div 10), digit_char (m mod 10)]"
  using assms by (simp add: hhmm_def two_digits)

lemma hours_mins_hhmm:
  assumes "h < 100" "m < 100"
  shows "hours_mins (hhmm h m) = (Some h, Some m)"
proof -
  have d: "h div 10 < 10" "h mod 10 < 10" "m div 10 < 10" "m mod 10 < 10"
    using assms by simp_all
  note D = d [THEN digit_char_digit(1)] and C = d [THEN digit_char_digit(2)]
  have "split_str CHR '':'' (hhmm h m)
      = [[digit_char (h div 10), digit_char (h mod 10)],
         [digit_char (m div 10), digit_char (m mod 10)]]"
    using C by (simp add: hhmm_chars [OF assms])
  then show ?thesis
    using D by (simp add: hours_mins_def Number_str_def)
qed

lemma timeToMinutes_hhmm:
  "h < 100 \<Longrightarrow> m < 100 \<Longrightarrow> timeToMinutes (hhmm h m) = Some (h * 60 + m)"
  by (simp add: timeToMinutes_def hours_mins_hhmm)

lemma addMinutes_hhmm:
  assumes "h < 100" "m < 100"
  shows "addMinutes (hhmm h m) k
       = hhmm (((h * 60 + m + k) div 60) mod 24) ((h * 60 + m + k) mod 60)"
  unfolding addMinutes_def hours_mins_hhmm [OF assms] by (simp add: hhmm_def Let_def)

lemma minutes_mod_day: "((n div 60) mod 24) * 60 + n mod 60 = n mod 1440" for n :: nat
  using mod_mult2_eq [of n 60 24] by simp

lemma timeToMinutes_addMinutes_hhmm:
  assumes "h < 100" "m < 100"
  shows "timeToMinutes (addMinutes (hhmm h m) k) = Some ((h * 60 + m + k) mod 1440)"
proof -
  let ?n = "h * 60 + m + k"
  have "(?n div 60) mod 24 < 100" "?n mod 60 < 100"
    by (rule less_trans [of _ 24], simp, simp, rule less_trans [of _ 60], simp, simp)
  then show ?thesis
    by (simp add: addMinutes_hhmm [OF assms] timeToMinutes_hhmm minutes_mod_day)
qed

lemma wf_time_iff: "wf_time t \<longleftrightarrow> (\<exists>h m. h < 24 \<and> m < 60 \<and> t = hhmm h m)"
  by (simp add: wf_time_def list_ex_iff Bex_def; blast)

lemma wf_time_hhmm: "h < 24 \<Longrightarrow> m < 60 \<Longrightarrow> wf_time (hhmm h m)"
  by (auto simp add: wf_time_iff)

lemma wf_time_minutes:
  assumes "wf_time t"
  shows "\<exists>n. n < 1440 \<and> timeToMinutes t = Some n"
proof -
  from assms obtain h m where hm: "h < 24" "m < 60" "t = hhmm h m"
    by (auto simp add: wf_time_iff)
  then have "timeToMinutes t = Some (h * 60 + m)" by (simp add: timeToMinutes_hhmm)
  moreover have "h * 60 + m < 1440" using hm by simp
  ultimately show ?thesis by blast
qed

text \<open>
  C2, as the specification states it for every time: \<open>isTableAvailable\<close> is false exactly
  when a booking of the table overlaps the interval from the time to the time plus 90
  minutes, in minute counts.  It fails at 23:00 with table 1 booked from 23:30 to 23:59:
  the intervals from 1380 to 1470 and from 1410 to 1439 overlap, but \<open>addMinutes\<close>
  wraps the end of the candidate to \<open>"00:30"\<close>, and the code answers true.
\<close>

theorem isTableAvailable_wrap_counterexample:
  "isTableAvailable 1 ''23:00'' [\<lparr>tableId = 1, startTime = ''23:30'', endTime = ''23:59''\<rparr>] = True
   \<and> spec_isTableAvailable 1 ''23:00''
        [\<lparr>tableId = 1, startTime = ''23:30'', endTime = ''23:59''\<rparr>] = False
   \<and> timeToMinutes ''23:00'' = Some 1380
   \<and> timeToMinutes ''23:30'' = Some 1410
   \<and> timeToMinutes ''23:59'' = Some 1439
   \<and> (1380::nat) < 1439 \<and> (1410::nat) < 1380 + 90"
  by (simp add: overlap_eval spec_isTableAvailable_def time_eval)

text \<open>
  C2, amended.  For a time \<open>"HH:MM"\<close> with hour below 24 and minute below 60, and
  bookings whose times are of that format: the minute count of the time is
  \<open>s1 = 60 * HH + MM\<close>, that of \<open>addMinutes time 90\<close> is \<open>e1 = (s1 + 90) mod 1440\<close>,
  and \<open>isTableAvailable tableId time bookings\<close> is false exactly when some booking of the
  list has that table id and minute counts \<open>s2\<close>, \<open>e2\<close> with \<open>s1 < e2\<close> and
  \<open>s2 < e1\<close>.  When the time is at most 22:29 the candidate does not wrap and the
  function agrees with the specification's wording.  It is true whenever no booking of
  the list has that table id, and on the empty list.
\<close>

theorem isTableAvailable_hhmm:
  assumes "h < 24" "m < 60"
    and "\<forall>b \<in> set bs. wf_time (startTime b) \<and> wf_time (endTime b)"
  shows "timeToMinutes (hhmm h m) = Some (h * 60 + m)
    \<and> timeToMinutes (addMinutes (hhmm h m) 90) = Some ((h * 60 + m + 90) mod 1440)
    \<and> (isTableAvailable tid (hhmm h m) bs = False \<longleftrightarrow>
         (\<exists>b \<in> set bs. tableId b = tid
            \<and> (\<exists>s2 e2. timeToMinutes (startTime b) = Some s2
                  \<and> timeToMinutes (endTime b) = Some e2
                  \<and> h * 60 + m < e2 \<and> s2 < (h * 60 + m + 90) mod 1440)))
    \<and> (h * 60 + m + 90 < 1440 \<longrightarrow>
         isTableAvailable tid (hhmm h m) bs = spec_isTableAvailable tid (hhmm h m) bs)
    \<and> ((\<forall>b \<in> set bs. tableId b \<noteq> tid) \<longrightarrow> isTableAvailable tid (hhmm h m) bs = True)
    \<and> isTableAvailable tid (hhmm h m) [] = True"
proof -
  have hm: "h < 100" "m < 100" using assms(1,2) by simp_all
  note s1 = timeToMinutes_hhmm [OF hm]
  note e1 = timeToMinutes_addMinutes_hhmm [OF hm, of 90]
  have ov: "timesOverlap (hhmm h m) (addMinutes (hhmm h m) 90) (startTime b) (endTime b)
      \<longleftrightarrow> (\<exists>s2 e2. timeToMinutes (startTime b) = Some s2 \<and> timeToMinutes (endTime b) = Some e2
             \<and> h * 60 + m < e2 \<and> s2 < (h * 60 + m + 90) mod 1440)" for b
    by (auto simp add: timesOverlap_def num_less_def Let_def s1 e1 split: option.splits)
  have iff: "isTableAvailable tid (hhmm h m) bs = False \<longleftrightarrow>
      (\<exists>b \<in> set bs. tableId b = tid
         \<and> (\<exists>s2 e2. timeToMinutes (startTime b) = Some s2
               \<and> timeToMinutes (endTime b) = Some e2
               \<and> h * 60 + m < e2 \<and> s2 < (h * 60 + m + 90) mod 1440))"
    unfolding isTableAvailable_def Let_def list_ex_iff ov by blast
  have plain: "isTableAvailable tid (hhmm h m) bs = spec_isTableAvailable tid (hhmm h m) bs"
    if "h * 60 + m + 90 < 1440"
  proof -
    have ov': "timesOverlap (hhmm h m) (addMinutes (hhmm h m) 90) (startTime b) (endTime b)
        \<longleftrightarrow> (case (timeToMinutes (hhmm h m), timeToMinutes (startTime b),
                    timeToMinutes (endTime b)) of
                (Some s1, Some s2, Some e2) \<Rightarrow> s1 < e2 \<and> s2 < s1 + 90
              | _ \<Rightarrow> False)" for b
      using that by (auto simp add: ov s1 split: option.splits)
    show ?thesis
      unfolding isTableAvailable_def spec_isTableAvailable_def Let_def ov' by (rule refl)
  qed
  have none: "isTableAvailable tid (hhmm h m) bs = True" if "\<forall>b \<in> set bs. tableId b \<noteq> tid"
    using that by (auto simp add: isTableAvailable_def list_ex_iff Let_def)
  have empty: "isTableAvailable tid (hhmm h m) [] = True"
    by (simp add: isTableAvailable_def)
  from s1 e1 iff plain none empty show ?thesis by blast
qed

theorem isTableAvailable_hhmm_witness:
  "(23::nat) < 24 \<and> (0::nat) < 60
   \<and> hhmm 23 0 = ''23:00'' \<and> hhmm 17 30 = ''17:30''
   \<and> wf_time ''23:30'' \<and> wf_time ''23:59'' \<and> wf_time ''17:00'' \<and> wf_time ''18:30''
   \<and> timeToMinutes ''23:00'' = Some 1380
   \<and> timeToMinutes (addMinutes ''23:00'' 90) = Some 30
   \<and> isTableAvailable 1 ''23:00'' [\<lparr>tableId = 1, startTime = ''23:30'', endTime = ''23:59''\<rparr>] = True
   \<and> timeToMinutes ''17:30'' = Some 1050
   \<and> timeToMinutes (addMinutes ''17:30'' 90) = Some 1140
   \<and> isTableAvailable 1 ''17:30'' [\<lparr>tableId = 1, startTime = ''17:00'', endTime = ''18:30''\<rparr>] = False
   \<and> spec_isTableAvailable 1 ''17:30''
        [\<lparr>tableId = 1, startTime = ''17:00'', endTime = ''18:30''\<rparr>] = False
   \<and> isTableAvailable 2 ''17:30'' [\<lparr>tableId = 1, startTime = ''17:00'', endTime = ''18:30''\<rparr>] = True
   \<and> isTableAvailable 1 ''17:30'' [] = True"
proof -
  have s: "hhmm 23 0 = ''23:00''" "hhmm 23 30 = ''23:30''" "hhmm 23 59 = ''23:59''"
    "hhmm 17 30 = ''17:30''" "hhmm 17 0 = ''17:00''" "hhmm 18 30 = ''18:30''"
    by (simp_all add: hhmm_def padStart_def String_nat.simps digit_char_def)
  have w: "wf_time ''23:30''" "wf_time ''23:59''" "wf_time ''17:00''" "wf_time ''18:30''"
    using wf_time_hhmm [of 23 30] wf_time_hhmm [of 23 59] wf_time_hhmm [of 17 0]
      wf_time_hhmm [of 18 30]
    by (simp_all add: s)
  have m: "timeToMinutes ''23:30'' = Some 1410" "timeToMinutes ''23:59'' = Some 1439"
    "timeToMinutes ''17:00'' = Some 1020" "timeToMinutes ''18:30'' = Some 1110"
    by (simp_all add: time_eval)
  show ?thesis
    using isTableAvailable_hhmm [of 23 0
        "[\<lparr>tableId = 1, startTime = ''23:30'', endTime = ''23:59''\<rparr>]" 1]
      isTableAvailable_hhmm [of 17 30
        "[\<lparr>tableId = 1, startTime = ''17:00'', endTime = ''18:30''\<rparr>]" 1]
      isTableAvailable_hhmm [of 17 30
        "[\<lparr>tableId = 1, startTime = ''17:00'', endTime = ''18:30''\<rparr>]" 2]
    by (auto simp add: s w m)
qed

section \<open>The random source stays in range\<close>

lemma valid_rng_shd: "valid_rng s \<Longrightarrow> 0 \<le> shd s \<and> shd s < 1"
  by (simp add: valid_rng_def shd_sset)

lemma valid_rng_stl: "valid_rng s \<Longrightarrow> valid_rng (stl s)"
  by (auto simp add: valid_rng_def dest: stl_sset)

lemma Math_random_valid:
  "valid_rng s \<Longrightarrow> Math_random s = (r, s') \<Longrightarrow> 0 \<le> r \<and> r < 1 \<and> valid_rng s'"
  by (auto simp add: Math_random_def valid_rng_shd valid_rng_stl)

lemma floor_scaled_less:
  fixes r :: real
  assumes "0 \<le> r" "r < 1" "0 < n"
  shows "nat \<lfloor>r * real n\<rfloor> < n"
proof -
  have "r * real n < real n" using assms by simp
  then have "\<lfloor>r * real n\<rfloor> < int n" by (simp add: floor_less_iff)
  moreover have "0 \<le> \<lfloor>r * real n\<rfloor>" using assms by simp
  ultimately show ?thesis by linarith
qed

lemma floor_random_valid:
  assumes "valid_rng s" "floor_random n s = (k, s')"
  shows "valid_rng s'" and "0 < n \<Longrightarrow> k < n"
  using assms
  by (auto simp add: floor_random_def Math_random_def valid_rng_stl
      intro!: floor_scaled_less dest: valid_rng_shd)

lemma valid_sample_draws: "valid_rng sample_draws"
  by (simp add: valid_rng_def sample_draws_def)

section \<open>Layout generator: the loops\<close>

lemma addTables_spec:
  "addTables n cap (ts, idc, s) = (ts', idc', s') \<Longrightarrow>
     map capacity ts' = map capacity ts @ replicate n cap
     \<and> map id_tbl ts' = map id_tbl ts @ [idc..idc + int n - 1]
     \<and> idc' = idc + int n
     \<and> (valid_rng s \<longrightarrow> valid_rng s')"
proof (induction n arbitrary: ts idc s)
  case 0
  then show ?case by simp
next
  case (Suc n)
  obtain r s1 where r: "Math_random s = (r, s1)" by (cases "Math_random s")
  let ?t = "\<lparr>id_tbl = idc, shape = (if r > 0.5 then circle else square), capacity = cap\<rparr>"
  from Suc.prems r have "addTables n cap (ts @ [?t], idc + 1, s1) = (ts', idc', s')"
    by simp
  from Suc.IH [OF this] r show ?case
    by (auto simp add: replicate_append_same upto_rec1 [of idc] Math_random_def valid_rng_stl)
qed

lemma fillTables_spec:
  assumes "valid_rng s" "fillTables s = (ts, s')"
  shows "\<exists>a. 4 \<le> a \<and> a \<le> 8 \<and> map capacity ts = replicate a 4 @ replicate (12 - a) 6
           \<and> map id_tbl ts = [1..12] \<and> valid_rng s'"
proof -
  obtain k s1 where k: "floor_random 5 s = (k, s1)" by (cases "floor_random 5 s")
  obtain ts4 idc s2 where a4: "addTables (4 + k) 4 ([], 1, s1) = (ts4, idc, s2)"
    by (cases "addTables (4 + k) 4 ([], 1, s1)")
  obtain ts6 idc' s3 where a6: "addTables (8 - k) 6 (ts4, idc, s2) = (ts6, idc', s3)"
    by (cases "addTables (8 - k) 6 (ts4, idc, s2)")
  have kb: "k < 5" and v1: "valid_rng s1"
    using floor_random_valid [OF assms(1) k] by simp_all
  have n4: "nat (4 + int k) = 4 + k" and n6: "nat (8 - int k) = 8 - k"
    using kb by simp_all
  from assms(2) k a4 a6 have ts: "ts = ts6" and s': "s' = s3"
    by (simp_all add: fillTables_def Let_def n4 n6)
  note A = addTables_spec [OF a4] and B = addTables_spec [OF a6]
  have "[1..12] = [1..1 + int (4 + k) - 1] @ [idc..idc + int (8 - k) - 1]"
    using A kb upto_split2 [of 1 "4 + int k" 12] by simp
  then have "map id_tbl ts = [1..12]"
    using A B ts by simp
  moreover have "map capacity ts = replicate (4 + k) 4 @ replicate (12 - (4 + k)) 6"
    using A B ts by simp
  moreover have "valid_rng s'" using A B v1 s' by simp
  ultimately show ?thesis using kb by (intro exI [of _ "4 + k"]) simp
qed

lemma shuffle_spec:
  "valid_rng s \<Longrightarrow> i < length ts \<Longrightarrow> shuffle i ts s = (ts', s') \<Longrightarrow>
     mset ts' = mset ts \<and> valid_rng s'"
proof (induction i arbitrary: ts s)
  case 0
  then show ?case by simp
next
  case (Suc i)
  obtain j s1 where j: "floor_random (Suc i + 1) s = (j, s1)"
    by (cases "floor_random (Suc i + 1) s")
  have jb: "j < Suc i + 1" and v1: "valid_rng s1"
    using floor_random_valid [OF Suc.prems(1) j] by simp_all
  let ?ts = "ts[Suc i := ts ! j, j := ts ! Suc i]"
  have sw: "mset ?ts = mset ts"
    using mset_swap [of j ts "Suc i"] jb Suc.prems(2) by simp
  have "shuffle i ?ts s1 = (ts', s')" using Suc.prems(3) j by simp
  from Suc.IH [OF v1 _ this] Suc.prems(2) sw show ?case by simp
qed

lemma generateTables_spec:
  assumes "valid_rng s" "generateTables s = (ts, s')"
  shows "\<exists>ts0 s0. fillTables s = (ts0, s0) \<and> mset ts = mset ts0 \<and> valid_rng s'"
proof -
  obtain ts0 s0 where f: "fillTables s = (ts0, s0)" by (cases "fillTables s")
  from fillTables_spec [OF assms(1) f] obtain a where
    "map id_tbl ts0 = [1..12]" "valid_rng s0" by blast
  then have "length (map id_tbl ts0) = 12" "valid_rng s0"
    by simp_all
  then have "length ts0 = 12" "valid_rng s0"
    by simp_all
  with assms(2) f shuffle_spec [of s0 "length ts0 - 1" ts0 ts s'] show ?thesis
    by (simp add: generateTables_def)
qed

lemma generateRandomPrompt_spec:
  assumes "valid_rng s" "generateRandomPrompt s = (p, s')"
  shows "(partySize p = 4 \<or> partySize p = 6) \<and> time p \<in> set AVAILABLE_TIMES \<and> valid_rng s'"
proof -
  obtain i s1 where i: "floor_random (Suc (Suc 0)) s = (i, s1)"
    by (cases "floor_random (Suc (Suc 0)) s")
  obtain j s2 where j: "floor_random 9 s1 = (j, s2)" by (cases "floor_random 9 s1")
  have ib: "i < 2" and v1: "valid_rng s1"
    using floor_random_valid [OF assms(1) i] by simp_all
  have jb: "j < 9" and v2: "valid_rng s2"
    using floor_random_valid [OF v1 j] by simp_all
  have len: "length AVAILABLE_TIMES = 9" by (simp add: AVAILABLE_TIMES_def)
  from assms(2) i j have p: "partySize p = [4, 6] ! i" "time p = AVAILABLE_TIMES ! j" "s' = s2"
    by (auto simp add: generateRandomPrompt_def Let_def len)
  have "i = 0 \<or> i = 1" using ib by auto
  then have "partySize p = 4 \<or> partySize p = 6" using p(1) by auto
  moreover have "time p \<in> set AVAILABLE_TIMES" using p(2) jb len by simp
  ultimately show ?thesis using v2 p(3) by simp
qed

lemma mset_filter_length:
  "mset xs = mset ys \<Longrightarrow> length (filter P xs) = length (filter P ys)"
  by (metis mset_filter size_mset)

lemma count_capacity:
  assumes "map capacity ts = replicate a 4 @ replicate b 6"
  shows "length (filter (\<lambda>t. capacity t = 4) ts) = a"
    and "length (filter (\<lambda>t. capacity t = 6) ts) = b"
proof -
  have "length (filter (\<lambda>t. capacity t = c) ts) = length (filter (\<lambda>x. x = c) (map capacity ts))"
    for c
    by (simp add: filter_map comp_def)
  then show "length (filter (\<lambda>t. capacity t = 4) ts) = a"
    and "length (filter (\<lambda>t. capacity t = 6) ts) = b"
    using assms by simp_all
qed

lemma generateTables_layout:
  assumes "valid_rng s" "generateTables s = (ts, s')"
  shows "length ts = 12"
    and "4 \<le> length (filter (\<lambda>t. capacity t = 4) ts)"
    and "length (filter (\<lambda>t. capacity t = 4) ts) \<le> 8"
    and "length (filter (\<lambda>t. capacity t = 4) ts) + length (filter (\<lambda>t. capacity t = 6) ts) = 12"
    and "\<forall>t \<in> set ts. capacity t = 4 \<or> capacity t = 6"
    and "distinct (map id_tbl ts)"
    and "set (map id_tbl ts) = {1..12}"
    and "mset ts = mset (fst (fillTables s))"
    and "valid_rng s'"
proof -
  from generateTables_spec [OF assms] obtain ts0 s0 where
    f: "fillTables s = (ts0, s0)" and m: "mset ts = mset ts0" and v: "valid_rng s'" by blast
  from fillTables_spec [OF assms(1) f] obtain a where
    a: "4 \<le> a" "a \<le> 8" and cap: "map capacity ts0 = replicate a 4 @ replicate (12 - a) 6"
    and ids: "map id_tbl ts0 = [1..12]" by blast
  have l0: "length (map id_tbl ts0) = 12" unfolding ids by simp
  have "length ts = length ts0" using m by (metis size_mset)
  then show "length ts = 12" using l0 by simp
  have c4: "length (filter (\<lambda>t. capacity t = 4) ts) = a"
    and c6: "length (filter (\<lambda>t. capacity t = 6) ts) = 12 - a"
    using count_capacity [OF cap] mset_filter_length [OF m] by simp_all
  show "4 \<le> length (filter (\<lambda>t. capacity t = 4) ts)"
    and "length (filter (\<lambda>t. capacity t = 4) ts) \<le> 8"
    and "length (filter (\<lambda>t. capacity t = 4) ts) + length (filter (\<lambda>t. capacity t = 6) ts) = 12"
    using a c4 c6 by simp_all
  have "set (map capacity ts0) \<subseteq> {4, 6}" unfolding cap by auto
  moreover have "set ts = set ts0" using m by (rule mset_eq_setD)
  ultimately show "\<forall>t \<in> set ts. capacity t = 4 \<or> capacity t = 6" by auto
  have mi: "mset (map id_tbl ts) = mset (map id_tbl ts0)" using m by simp
  have "distinct (map id_tbl ts0)" unfolding ids by simp
  then show "distinct (map id_tbl ts)" using mi by (metis mset_eq_imp_distinct_iff)
  have "set (map id_tbl ts) = set (map id_tbl ts0)" using mi by (rule mset_eq_setD)
  then show "set (map id_tbl ts) = {1..12}" unfolding ids by simp
  show "mset ts = mset (fst (fillTables s))" using m f by simp
  show "valid_rng s'" by (rule v)
qed

lemma guaranteedAvailableTable_spec:
  assumes "valid_rng s" "generateTables s = (ts, s1)" "generateRandomPrompt s1 = (p, s2)"
    "guaranteedAvailableTable (suitableTables ts p) s2 = (g, s3)"
  shows "suitableTables ts p \<noteq> []"
    and "fst (floor_random (length (suitableTables ts p)) s2) < length (suitableTables ts p)"
    and "\<exists>gt. g = Some gt \<and> gt \<in> set ts \<and> capacity gt = partySize p"
    and "valid_rng s3"
proof -
  note L = generateTables_layout [OF assms(1,2)]
  note P = generateRandomPrompt_spec [OF L(9) assms(3)]
  have "0 < length (suitableTables ts p)"
    using L(2,3,4) P unfolding suitableTables_def by auto
  then show ne: "suitableTables ts p \<noteq> []" by simp
  obtain k s' where k: "floor_random (length (suitableTables ts p)) s2 = (k, s')"
    by (cases "floor_random (length (suitableTables ts p)) s2")
  have v2: "valid_rng s2" using P by simp
  have kb: "k < length (suitableTables ts p)" and v3: "valid_rng s'"
    using floor_random_valid [OF v2 k] ne by simp_all
  show "fst (floor_random (length (suitableTables ts p)) s2) < length (suitableTables ts p)"
    using k kb by simp
  from assms(4) k kb have g: "g = Some (suitableTables ts p ! k)" and s3: "s3 = s'"
    by (simp_all add: guaranteedAvailableTable_def)
  have "suitableTables ts p ! k \<in> set (suitableTables ts p)" using kb by simp
  then show "\<exists>gt. g = Some gt \<and> gt \<in> set ts \<and> capacity gt = partySize p"
    using g by (simp add: suitableTables_def)
  show "valid_rng s3" using v3 s3 by simp
qed

section \<open>Scenario generator: the loops\<close>

lemma splice_distinct:
  assumes "distinct xs" "k < length xs"
  shows "distinct (take k xs @ drop (Suc k) xs)"
    and "xs ! k \<notin> set (take k xs @ drop (Suc k) xs)"
    and "set (take k xs @ drop (Suc k) xs) \<subseteq> set xs"
proof -
  have xs: "xs = take k xs @ xs ! k # drop (Suc k) xs"
    using assms(2) by (rule id_take_nth_drop)
  have "distinct (take k xs @ xs ! k # drop (Suc k) xs)"
    using assms(1) xs by simp
  then show "distinct (take k xs @ drop (Suc k) xs)"
    and "xs ! k \<notin> set (take k xs @ drop (Suc k) xs)"
    by auto
  show "set (take k xs @ drop (Suc k) xs) \<subseteq> set xs"
    by (auto dest: in_set_takeD in_set_dropD)
qed

lemma bookSlots_spec:
  assumes "valid_rng s" "distinct slots"
  shows "\<exists>new s'. bookSlots n table (Some gt) p slots bs s = Inr (bs @ new, s')
           \<and> valid_rng s' \<and> length new \<le> n \<and> distinct (map startTime new)
           \<and> set (map startTime new) \<subseteq> set slots
           \<and> (\<forall>b \<in> set new. booked_ok table gt p b)"
  using assms
proof (induction n arbitrary: slots bs s)
  case 0
  then show ?case by simp
next
  case (Suc n)
  show ?case
  proof (cases "slots = []")
    case True
    with Suc.prems show ?thesis by simp
  next
    case False
    obtain k s1 where k: "floor_random (length slots) s = (k, s1)"
      by (cases "floor_random (length slots) s")
    have kb: "k < length slots" and v1: "valid_rng s1"
      using floor_random_valid [OF Suc.prems(1) k] False by simp_all
    let ?slots = "take k slots @ drop (Suc k) slots"
    let ?b = "\<lparr>tableId = id_tbl table, startTime = slots ! k, endTime = addMinutes (slots ! k) 90\<rparr>"
    note S = splice_distinct [OF Suc.prems(2) kb]
    have mem: "slots ! k \<in> set slots" using kb by simp
    consider (skip) "id_tbl table = id_tbl gt"
        "timesOverlap (slots ! k) (addMinutes (slots ! k) 90) (time p) (addMinutes (time p) 90)"
      | (add) "booked_ok table gt p ?b"
      by (auto simp add: booked_ok_def)
    then show ?thesis
    proof cases
      case skip
      from Suc.IH [OF v1 S(1), of bs] obtain new s' where
        r: "bookSlots n table (Some gt) p ?slots bs s1 = Inr (bs @ new, s')"
        and p: "valid_rng s'" "length new \<le> n" "distinct (map startTime new)"
          "set (map startTime new) \<subseteq> set ?slots" "\<forall>b \<in> set new. booked_ok table gt p b"
        by blast
      have "bookSlots (Suc n) table (Some gt) p slots bs s = Inr (bs @ new, s')"
        using False k skip r by (simp add: Let_def)
      moreover have "set (map startTime new) \<subseteq> set slots" using p(4) S(3) by blast
      ultimately show ?thesis using p by (intro exI [of _ new] exI [of _ s']) simp
    next
      case add
      from Suc.IH [OF v1 S(1), of "bs @ [?b]"] obtain new s' where
        r: "bookSlots n table (Some gt) p ?slots (bs @ [?b]) s1 = Inr ((bs @ [?b]) @ new, s')"
        and p: "valid_rng s'" "length new \<le> n" "distinct (map startTime new)"
          "set (map startTime new) \<subseteq> set ?slots" "\<forall>b \<in> set new. booked_ok table gt p b"
        by blast
      have ov: "id_tbl table = id_tbl gt \<Longrightarrow>
          \<not> timesOverlap (slots ! k) (addMinutes (slots ! k) 90) (time p) (addMinutes (time p) 90)"
        using add by (simp add: booked_ok_def)
      have "bookSlots (Suc n) table (Some gt) p slots bs s = Inr (bs @ ?b # new, s')"
        using False k r ov by (cases "id_tbl table = id_tbl gt") (simp_all add: Let_def)
      moreover have "set (map startTime (?b # new)) \<subseteq> set slots"
        using p(4) S(3) mem by auto
      moreover have "distinct (map startTime (?b # new))"
        using p(3,4) S(2) by auto
      moreover have "\<forall>b \<in> set (?b # new). booked_ok table gt p b"
        using p(5) add by simp
      moreover have "length (?b # new) \<le> Suc n" using p(2) by simp
      ultimately show ?thesis using p(1) by (intro exI [of _ "?b # new"] exI [of _ s']) blast
    qed
  qed
qed

lemma distinct_AVAILABLE_TIMES: "distinct AVAILABLE_TIMES"
  by (simp add: AVAILABLE_TIMES_def)

lemma forEach_table_spec:
  assumes "valid_rng s" "distinct (map id_tbl ts)"
  shows "\<exists>new s'. forEach_table ts (Some gt) p bs s = Inr (bs @ new, s')
           \<and> valid_rng s'
           \<and> (\<forall>b \<in> set new. booking_ok ts gt p b)
           \<and> (\<forall>k. length (own_bookings k new) \<le> 3 \<and> distinct (map startTime (own_bookings k new)))"
  using assms
proof (induction ts arbitrary: bs s)
  case Nil
  then show ?case by (simp add: own_bookings_def)
next
  case (Cons table ts)
  obtain n s1 where n: "floor_random 4 s = (n, s1)" by (cases "floor_random 4 s")
  have nb: "n < 4" and v1: "valid_rng s1"
    using floor_random_valid [OF Cons.prems(1) n] by simp_all
  from bookSlots_spec [OF v1 distinct_AVAILABLE_TIMES, of n table gt p bs] obtain new1 s2 where
    r1: "bookSlots n table (Some gt) p AVAILABLE_TIMES bs s1 = Inr (bs @ new1, s2)"
    and p1: "valid_rng s2" "length new1 \<le> n" "distinct (map startTime new1)"
      "set (map startTime new1) \<subseteq> set AVAILABLE_TIMES" "\<forall>b \<in> set new1. booked_ok table gt p b"
    by blast
  have d: "distinct (map id_tbl ts)" and notin: "id_tbl table \<notin> id_tbl ` set ts"
    using Cons.prems(2) by simp_all
  from Cons.IH [OF p1(1) d, of "bs @ new1"] obtain new2 s' where
    r2: "forEach_table ts (Some gt) p (bs @ new1) s2 = Inr ((bs @ new1) @ new2, s')"
    and p2: "valid_rng s'" "\<forall>b \<in> set new2. booking_ok ts gt p b"
      "\<forall>k. length (own_bookings k new2) \<le> 3 \<and> distinct (map startTime (own_bookings k new2))"
    by blast
  have res: "forEach_table (table # ts) (Some gt) p bs s = Inr (bs @ (new1 @ new2), s')"
    using n r1 r2 by simp
  have ok1: "booking_ok (table # ts) gt p b" if "b \<in> set new1" for b
    using p1(4,5) that by (auto simp add: booking_ok_def booked_ok_def)
  have ok2: "booking_ok (table # ts) gt p b" if "b \<in> set new2" for b
    using p2(2) that by (auto simp add: booking_ok_def)
  have own1: "own_bookings k new1 = (if k = id_tbl table then new1 else [])" for k
    using p1(5) by (auto simp add: own_bookings_def booked_ok_def filter_empty_conv filter_id_conv)
  have own2: "own_bookings (id_tbl table) new2 = []"
  proof -
    have "tableId b \<noteq> id_tbl table" if "b \<in> set new2" for b
    proof -
      have "tableId b \<in> id_tbl ` set ts" using p2(2) that by (simp add: booking_ok_def)
      then show ?thesis using notin by auto
    qed
    then show ?thesis by (simp add: own_bookings_def filter_empty_conv)
  qed
  have own: "length (own_bookings k (new1 @ new2)) \<le> 3
      \<and> distinct (map startTime (own_bookings k (new1 @ new2)))" for k
  proof (cases "k = id_tbl table")
    case True
    have "own_bookings k (new1 @ new2) = new1"
      using own1 [of k] own2 True by (simp add: own_bookings_def)
    then show ?thesis using p1(2,3) nb by simp
  next
    case False
    have "own_bookings k (new1 @ new2) = own_bookings k new2"
      using own1 [of k] False by (simp add: own_bookings_def)
    then show ?thesis using p2(3) by simp
  qed
  show ?case
    using res p2(1) ok1 ok2 own
    by (intro exI [of _ "new1 @ new2"] exI [of _ s']) auto
qed

lemma timesOverlap_sym: "timesOverlap a b c d = timesOverlap c d a b"
  by (auto simp add: timesOverlap_def Let_def)

lemma generateExperimentData_spec:
  assumes "valid_rng s"
  shows "\<exists>d s' gt. generateExperimentData sys s = Inr (d, s')
           \<and> systemType d = sys
           \<and> tables d = fst (generateTables s)
           \<and> gt \<in> set (tables d) \<and> capacity gt = partySize (prompt d)
           \<and> time (prompt d) \<in> set AVAILABLE_TIMES
           \<and> (\<forall>b \<in> set (bookings d). booking_ok (tables d) gt (prompt d) b)
           \<and> (\<forall>k. length (own_bookings k (bookings d)) \<le> 3
                  \<and> distinct (map startTime (own_bookings k (bookings d))))"
proof -
  obtain ts s1 where t: "generateTables s = (ts, s1)" by (cases "generateTables s")
  obtain p s2 where p: "generateRandomPrompt s1 = (p, s2)" by (cases "generateRandomPrompt s1")
  obtain g s3 where g: "guaranteedAvailableTable (suitableTables ts p) s2 = (g, s3)"
    by (cases "guaranteedAvailableTable (suitableTables ts p) s2")
  note L = generateTables_layout [OF assms t]
  note P = generateRandomPrompt_spec [OF L(9) p]
  note G = guaranteedAvailableTable_spec [OF assms t p g]
  from G(3) obtain gt where gt: "g = Some gt" "gt \<in> set ts" "capacity gt = partySize p" by blast
  from forEach_table_spec [OF G(4) L(6), of gt p "[]"] obtain bs s4 where
    r: "forEach_table ts (Some gt) p [] s3 = Inr (bs, s4)"
    and b: "\<forall>b \<in> set bs. booking_ok ts gt p b"
      "\<forall>k. length (own_bookings k bs) \<le> 3 \<and> distinct (map startTime (own_bookings k bs))"
    by auto
  let ?d = "\<lparr>systemType = sys, bookings = bs, tables = ts, prompt = p\<rparr>"
  have "generateExperimentData sys s = Inr (?d, s4)"
    using t p g gt(1) r by (simp add: generateExperimentData_def)
  then show ?thesis using t gt(2,3) P b
    by (intro exI [of _ ?d] exI [of _ s4] exI [of _ gt]) simp
qed

section \<open>A sample run\<close>

text \<open>One step of each counted loop when the count is a numeral.\<close>

lemma addTables_numeral:
  "addTables (numeral v) cap (ts, idc, s) =
     (case Math_random s of (r, s') \<Rightarrow>
        addTables (pred_numeral v) cap
          (ts @ [\<lparr>id_tbl = idc, shape = (if r > 0.5 then circle else square), capacity = cap\<rparr>],
           idc + 1, s'))"
  by (simp add: numeral_eq_Suc)

lemma shuffle_numeral:
  "shuffle (numeral v) ts s =
     (case floor_random (numeral v + 1) s of (j, s') \<Rightarrow>
        shuffle (pred_numeral v) (ts[numeral v := ts ! j, j := ts ! numeral v]) s')"
  by (simp add: numeral_eq_Suc)

lemmas bookSlots_numeral = bookSlots.simps(2) [of "pred_numeral v", folded numeral_eq_Suc] for v

lemmas generator_eval =
  generateTables_def fillTables_def floor_random_def Math_random_def
  generateExperimentData_def generateRandomPrompt_def guaranteedAvailableTable_def
  suitableTables_def AVAILABLE_TIMES_def timesOverlap_def num_less_def
  formatTimeForDisplay_def addTables_numeral shuffle_numeral bookSlots_numeral

lemma generateTables_sample: "fst (generateTables sample_draws) = sample_tables"
  by (simp add: sample_draws_def sample_tables_def generator_eval)

lemma generateExperimentData_sample:
  "generateExperimentData sys sample_draws = Inr (sample_scenario sys, sconst 0)"
  by (simp add: sample_draws_def sample_scenario_def sample_tables_def sample_bookings_def
      generator_eval time_eval)

section \<open>Layout generator: the properties\<close>

text \<open>
  C3.  For every sequence of draws in \<open>[0, 1)\<close>, \<open>generateTables\<close> returns exactly 12
  tables; the number of tables of capacity 4 lies between 4 and 8, so does the number of
  tables of capacity 6, the two numbers add up to 12, and every table has capacity 4
  or 6.
\<close>

theorem generateTables_counts:
  assumes "valid_rng s"
  shows "length (fst (generateTables s)) = 12
    \<and> 4 \<le> length (filter (\<lambda>t. capacity t = 4) (fst (generateTables s)))
    \<and> length (filter (\<lambda>t. capacity t = 4) (fst (generateTables s))) \<le> 8
    \<and> 4 \<le> length (filter (\<lambda>t. capacity t = 6) (fst (generateTables s)))
    \<and> length (filter (\<lambda>t. capacity t = 6) (fst (generateTables s))) \<le> 8
    \<and> length (filter (\<lambda>t. capacity t = 4) (fst (generateTables s)))
        + length (filter (\<lambda>t. capacity t = 6) (fst (generateTables s))) = 12
    \<and> (\<forall>t \<in> set (fst (generateTables s)). capacity t = 4 \<or> capacity t = 6)"
proof -
  obtain ts s' where t: "generateTables s = (ts, s')" by (cases "generateTables s")
  note L = generateTables_layout [OF assms t]
  have "4 \<le> length (filter (\<lambda>t. capacity t = 6) ts)"
    and "length (filter (\<lambda>t. capacity t = 6) ts) \<le> 8"
    using L(2,3,4) by linarith+
  then show ?thesis using L(1,2,3,4,5) t by simp
qed

theorem generateTables_counts_witness:
  "valid_rng sample_draws
   \<and> fst (generateTables sample_draws) = sample_tables
   \<and> length (fst (generateTables sample_draws)) = 12
   \<and> length (filter (\<lambda>t. capacity t = 4) (fst (generateTables sample_draws))) = 6
   \<and> length (filter (\<lambda>t. capacity t = 6) (fst (generateTables sample_draws))) = 6"
proof -
  have "length (filter (\<lambda>t. capacity t = 4) sample_tables) = 6"
    and "length (filter (\<lambda>t. capacity t = 6) sample_tables) = 6"
    by (simp_all add: sample_tables_def)
  then show ?thesis
    using valid_sample_draws generateTables_counts [OF valid_sample_draws]
    by (simp add: generateTables_sample)
qed

text \<open>
  C9.  For every sequence of draws in \<open>[0, 1)\<close>, the 12 tables that \<open>generateTables\<close>
  returns have pairwise distinct ids, the ids are exactly 1 to 12, and the shuffle is a
  permutation: the returned array has the same elements, each as often, as the array
  the two filling loops built.
\<close>

theorem generateTables_ids:
  assumes "valid_rng s"
  shows "length (fst (generateTables s)) = 12
    \<and> distinct (map id_tbl (fst (generateTables s)))
    \<and> set (map id_tbl (fst (generateTables s))) = {1..12}
    \<and> mset (fst (generateTables s)) = mset (fst (fillTables s))
    \<and> map id_tbl (fst (fillTables s)) = [1..12]"
proof -
  obtain ts s' where t: "generateTables s = (ts, s')" by (cases "generateTables s")
  obtain ts0 s0 where f: "fillTables s = (ts0, s0)" by (cases "fillTables s")
  note L = generateTables_layout [OF assms t]
  from fillTables_spec [OF assms f] have "map id_tbl ts0 = [1..12]" by blast
  then show ?thesis using L(1,6,7,8) t f by simp
qed

theorem generateTables_ids_witness:
  "valid_rng sample_draws
   \<and> map id_tbl (fst (generateTables sample_draws)) = [2, 5, 3, 6, 7, 11, 9, 10, 4, 12, 1, 8]
   \<and> distinct (map id_tbl (fst (generateTables sample_draws)))
   \<and> set (map id_tbl (fst (generateTables sample_draws))) = {1..12}"
proof -
  have "map id_tbl (fst (generateTables sample_draws)) = [2, 5, 3, 6, 7, 11, 9, 10, 4, 12, 1, 8]"
    by (simp add: generateTables_sample sample_tables_def)
  then show ?thesis
    using valid_sample_draws generateTables_ids [OF valid_sample_draws] by blast
qed

section \<open>Scenario generator: the properties\<close>

text \<open>
  C5.  In every run of \<open>generateExperimentData\<close> on draws in \<open>[0, 1)\<close>, the tables
  whose capacity equals the party size of the prompt are not empty, the index drawn into
  them is below their number, so the guaranteed table is a table of that subset, and
  the run returns a scenario instead of throwing.
\<close>

theorem suitableTables_nonempty:
  assumes "valid_rng s"
  shows "(case generateTables s of (ts, s1) \<Rightarrow>
            case generateRandomPrompt s1 of (p, s2) \<Rightarrow>
              suitableTables ts p \<noteq> []
              \<and> fst (floor_random (length (suitableTables ts p)) s2) < length (suitableTables ts p)
              \<and> (\<exists>gt. fst (guaranteedAvailableTable (suitableTables ts p) s2) = Some gt
                    \<and> gt \<in> set (suitableTables ts p)))
    \<and> (\<exists>d s'. generateExperimentData sys s = Inr (d, s'))"
proof -
  obtain ts s1 where t: "generateTables s = (ts, s1)" by (cases "generateTables s")
  obtain p s2 where p: "generateRandomPrompt s1 = (p, s2)" by (cases "generateRandomPrompt s1")
  obtain g s3 where g: "guaranteedAvailableTable (suitableTables ts p) s2 = (g, s3)"
    by (cases "guaranteedAvailableTable (suitableTables ts p) s2")
  note G = guaranteedAvailableTable_spec [OF assms t p g]
  from G(3) have "\<exists>gt. g = Some gt \<and> gt \<in> set (suitableTables ts p)"
    by (auto simp add: suitableTables_def)
  moreover from generateExperimentData_spec [OF assms, of sys]
  have "\<exists>d s'. generateExperimentData sys s = Inr (d, s')" by blast
  ultimately show ?thesis using G(1,2) t p g by simp
qed

theorem suitableTables_nonempty_witness:
  "valid_rng sample_draws
   \<and> (case generateTables sample_draws of (ts, s1) \<Rightarrow>
         case generateRandomPrompt s1 of (p, s2) \<Rightarrow>
           suitableTables ts p \<noteq> []
           \<and> fst (floor_random (length (suitableTables ts p)) s2) < length (suitableTables ts p)
           \<and> (\<exists>gt. fst (guaranteedAvailableTable (suitableTables ts p) s2) = Some gt
                 \<and> gt \<in> set (suitableTables ts p)))
   \<and> generateExperimentData coloured sample_draws = Inr (sample_scenario coloured, sconst 0)
   \<and> map id_tbl (suitableTables sample_tables (prompt (sample_scenario coloured)))
       = [2, 5, 3, 6, 4, 1]"
proof -
  have ids: "map id_tbl (suitableTables sample_tables (prompt (sample_scenario coloured)))
      = [2, 5, 3, 6, 4, 1]"
    by (simp add: suitableTables_def sample_tables_def sample_scenario_def)
  note run = suitableTables_nonempty [OF valid_sample_draws, of coloured, THEN conjunct1]
  show ?thesis
    by (rule conjI [OF valid_sample_draws
          conjI [OF run conjI [OF generateExperimentData_sample ids]]])
qed

text \<open>
  C1.  Every run of \<open>generateExperimentData\<close> on draws in \<open>[0, 1)\<close>, for either
  display mode, returns a scenario that has a table whose capacity is the party size of
  the prompt and which \<open>isTableAvailable\<close> finds free at the time of the prompt.
\<close>

theorem generated_prompt_satisfiable:
  assumes "valid_rng s"
  shows "\<exists>d s'. generateExperimentData sys s = Inr (d, s')
           \<and> (\<exists>t \<in> set (tables d). capacity t = partySize (prompt d)
                 \<and> isTableAvailable (id_tbl t) (time (prompt d)) (bookings d) = True)"
proof -
  from generateExperimentData_spec [OF assms, of sys] obtain d s' gt where
    r: "generateExperimentData sys s = Inr (d, s')"
    and gt: "gt \<in> set (tables d)" "capacity gt = partySize (prompt d)"
    and b: "\<forall>b \<in> set (bookings d). booking_ok (tables d) gt (prompt d) b"
    by blast
  have "\<not> timesOverlap (time (prompt d)) (addMinutes (time (prompt d)) 90) (startTime b) (endTime b)"
    if "b \<in> set (bookings d)" "tableId b = id_tbl gt" for b
  proof -
    have "booking_ok (tables d) gt (prompt d) b" using b that(1) by simp
    then have "\<not> timesOverlap (startTime b) (endTime b) (time (prompt d))
        (addMinutes (time (prompt d)) 90)"
      using that(2) unfolding booking_ok_def by blast
    then show ?thesis by (subst timesOverlap_sym)
  qed
  then have "isTableAvailable (id_tbl gt) (time (prompt d)) (bookings d)"
    by (auto simp add: isTableAvailable_def list_ex_iff Let_def)
  then show ?thesis using r gt by auto
qed

theorem generated_prompt_satisfiable_witness:
  "valid_rng sample_draws
   \<and> (\<exists>d s'. generateExperimentData text_labels sample_draws = Inr (d, s')
         \<and> (\<exists>t \<in> set (tables d). capacity t = partySize (prompt d)
               \<and> isTableAvailable (id_tbl t) (time (prompt d)) (bookings d) = True))
   \<and> generateExperimentData text_labels sample_draws
       = Inr (sample_scenario text_labels, sconst 0)
   \<and> isTableAvailable 5 ''19:00'' sample_bookings = True
   \<and> isTableAvailable 2 ''19:00'' sample_bookings = False"
proof -
  have "isTableAvailable 5 ''19:00'' sample_bookings = True"
    and "isTableAvailable 2 ''19:00'' sample_bookings = False"
    by (simp_all add: sample_bookings_def overlap_eval time_eval)
  then show ?thesis
    using valid_sample_draws generated_prompt_satisfiable [OF valid_sample_draws, of text_labels]
      generateExperimentData_sample [of text_labels]
    by blast
qed

text \<open>
  C7.  In every scenario that \<open>generateExperimentData\<close> returns, every booking has the
  id of a table of the scenario, and its end time is \<open>addMinutes\<close> of its start time
  and 90.
\<close>

theorem bookings_reference_tables:
  assumes "valid_rng s"
  shows "\<exists>d s'. generateExperimentData sys s = Inr (d, s')
           \<and> (\<forall>b \<in> set (bookings d).
                 (\<exists>t \<in> set (tables d). tableId b = id_tbl t)
                 \<and> endTime b = addMinutes (startTime b) 90)"
proof -
  from generateExperimentData_spec [OF assms, of sys] obtain d s' gt where
    r: "generateExperimentData sys s = Inr (d, s')"
    and b: "\<forall>b \<in> set (bookings d). booking_ok (tables d) gt (prompt d) b"
    by blast
  have "(\<exists>t \<in> set (tables d). tableId b = id_tbl t) \<and> endTime b = addMinutes (startTime b) 90"
    if "b \<in> set (bookings d)" for b
    using b that by (auto simp add: booking_ok_def)
  then show ?thesis using r by blast
qed

theorem bookings_reference_tables_witness:
  "valid_rng sample_draws
   \<and> (\<exists>d s'. generateExperimentData coloured sample_draws = Inr (d, s')
         \<and> (\<forall>b \<in> set (bookings d).
               (\<exists>t \<in> set (tables d). tableId b = id_tbl t)
               \<and> endTime b = addMinutes (startTime b) 90))
   \<and> generateExperimentData coloured sample_draws = Inr (sample_scenario coloured, sconst 0)
   \<and> map tableId (bookings (sample_scenario coloured)) = [2, 2, 5, 3]"
proof -
  have "map tableId (bookings (sample_scenario coloured)) = [2, 2, 5, 3]"
    by (simp add: sample_scenario_def sample_bookings_def)
  then show ?thesis
    using valid_sample_draws bookings_reference_tables [OF valid_sample_draws, of coloured]
      generateExperimentData_sample [of coloured]
    by blast
qed

text \<open>
  C8.  In every scenario that \<open>generateExperimentData\<close> returns, and for every table of
  it, at most 3 bookings reference the table's id and their start times are pairwise
  distinct; every booking starts at one of the nine slots of \<open>AVAILABLE_TIMES\<close>, which
  run from 17:00 to 21:00 in steps of 30 minutes.
\<close>

theorem bookings_per_table:
  assumes "valid_rng s"
  shows "(\<exists>d s'. generateExperimentData sys s = Inr (d, s')
            \<and> (\<forall>t \<in> set (tables d).
                  length (filter (\<lambda>b. tableId b = id_tbl t) (bookings d)) \<le> 3
                  \<and> distinct (map startTime (filter (\<lambda>b. tableId b = id_tbl t) (bookings d))))
            \<and> (\<forall>b \<in> set (bookings d). startTime b \<in> set AVAILABLE_TIMES))
    \<and> map timeToMinutes AVAILABLE_TIMES = map (\<lambda>i. Some (17 * 60 + 30 * i)) [0..<9]"
proof -
  from generateExperimentData_spec [OF assms, of sys] obtain d s' gt where
    r: "generateExperimentData sys s = Inr (d, s')"
    and b: "\<forall>b \<in> set (bookings d). booking_ok (tables d) gt (prompt d) b"
    and o: "\<forall>k. length (own_bookings k (bookings d)) \<le> 3
              \<and> distinct (map startTime (own_bookings k (bookings d)))"
    by blast
  have "\<forall>b \<in> set (bookings d). startTime b \<in> set AVAILABLE_TIMES"
    using b by (simp add: booking_ok_def)
  moreover have "map timeToMinutes AVAILABLE_TIMES = map (\<lambda>i. Some (17 * 60 + 30 * i)) [0..<9]"
    by (simp add: AVAILABLE_TIMES_def time_eval upt_conv_Cons)
  ultimately show ?thesis using r o unfolding own_bookings_def by blast
qed

theorem bookings_per_table_witness:
  "valid_rng sample_draws
   \<and> (\<exists>d s'. generateExperimentData coloured sample_draws = Inr (d, s')
         \<and> (\<forall>t \<in> set (tables d).
               length (filter (\<lambda>b. tableId b = id_tbl t) (bookings d)) \<le> 3
               \<and> distinct (map startTime (filter (\<lambda>b. tableId b = id_tbl t) (bookings d))))
         \<and> (\<forall>b \<in> set (bookings d). startTime b \<in> set AVAILABLE_TIMES))
   \<and> generateExperimentData coloured sample_draws = Inr (sample_scenario coloured, sconst 0)
   \<and> map startTime (filter (\<lambda>b. tableId b = 2) (bookings (sample_scenario coloured)))
       = [''19:00'', ''17:00'']"
proof -
  have "map startTime (filter (\<lambda>b. tableId b = 2) (bookings (sample_scenario coloured)))
      = [''19:00'', ''17:00'']"
    by (simp add: sample_scenario_def sample_bookings_def)
  then show ?thesis
    using valid_sample_draws bookings_per_table [OF valid_sample_draws, of coloured]
      generateExperimentData_sample [of coloured]
    by blast
qed

text \<open>
  C10.  For every slot \<open>t\<close> of \<open>AVAILABLE_TIMES\<close> the minute count of
  \<open>addMinutes t 90\<close> is that of \<open>t\<close> plus 90: no slot wraps past midnight.  So every
  booking of a scenario that \<open>generateExperimentData\<close> returns starts, in minutes,
  strictly before it ends.
\<close>

theorem slots_do_not_wrap:
  assumes "valid_rng s"
  shows "(\<forall>t \<in> set AVAILABLE_TIMES.
            \<exists>m. timeToMinutes t = Some m \<and> timeToMinutes (addMinutes t 90) = Some (m + 90))
    \<and> (\<exists>d s'. generateExperimentData sys s = Inr (d, s')
          \<and> (\<forall>b \<in> set (bookings d).
                \<exists>m e. timeToMinutes (startTime b) = Some m
                  \<and> timeToMinutes (endTime b) = Some e \<and> m < e))"
proof -
  have slots: "\<forall>t \<in> set AVAILABLE_TIMES.
      \<exists>m. timeToMinutes t = Some m \<and> timeToMinutes (addMinutes t 90) = Some (m + 90)"
    by (simp add: AVAILABLE_TIMES_def time_eval)
  from generateExperimentData_spec [OF assms, of sys] obtain d s' gt where
    r: "generateExperimentData sys s = Inr (d, s')"
    and b: "\<forall>b \<in> set (bookings d). booking_ok (tables d) gt (prompt d) b"
    by blast
  have "\<exists>m e. timeToMinutes (startTime b) = Some m \<and> timeToMinutes (endTime b) = Some e \<and> m < e"
    if "b \<in> set (bookings d)" for b
  proof -
    have st: "startTime b \<in> set AVAILABLE_TIMES" and en: "endTime b = addMinutes (startTime b) 90"
      using b that by (simp_all add: booking_ok_def)
    from slots st obtain m where "timeToMinutes (startTime b) = Some m"
      "timeToMinutes (addMinutes (startTime b) 90) = Some (m + 90)" by blast
    then show ?thesis using en by simp
  qed
  then show ?thesis using slots r by blast
qed

theorem slots_do_not_wrap_witness:
  "valid_rng sample_draws
   \<and> timeToMinutes ''21:00'' = Some 1260
   \<and> timeToMinutes (addMinutes ''21:00'' 90) = Some (1260 + 90)
   \<and> (\<exists>d s'. generateExperimentData coloured sample_draws = Inr (d, s')
         \<and> (\<forall>b \<in> set (bookings d).
               \<exists>m e. timeToMinutes (startTime b) = Some m
                 \<and> timeToMinutes (endTime b) = Some e \<and> m < e))
   \<and> generateExperimentData coloured sample_draws = Inr (sample_scenario coloured, sconst 0)"
proof -
  have "timeToMinutes ''21:00'' = Some 1260" by (simp add: time_eval)
  moreover have "''21:00'' \<in> set AVAILABLE_TIMES" by (simp add: AVAILABLE_TIMES_def)
  ultimately show ?thesis
    using valid_sample_draws slots_do_not_wrap [OF valid_sample_draws, of coloured]
      generateExperimentData_sample [of coloured]
    by auto
qed

end
